theory Spec2Isabelle
  imports Main "HOL-Library.Char_ord" "HOL-Library.List_Lexorder" "HOL-Library.AList"
begin

section \<open>Strings\<close>

text \<open>
  Python strings are modelled as \<^typ>\<open>string\<close>. Characters are compared by their code
  (\<open>HOL-Library.Char_ord\<close>) and strings lexicographically
  (\<open>HOL-Library.List_Lexorder\<close>), which is the order Python's \<^verbatim>\<open>sorted\<close> uses on
  \<^verbatim>\<open>str\<close>. \<^verbatim>\<open>str.lower\<close> is modelled on the ASCII letters; every other character is left
  as it is.
\<close>

definition ascii_uppercase :: string where
  "ascii_uppercase = ''ABCDEFGHIJKLMNOPQRSTUVWXYZ''"

definition ascii_lowercase :: string where
  "ascii_lowercase = ''abcdefghijklmnopqrstuvwxyz''"

definition lower_char :: "char \<Rightarrow> char" where
  "lower_char c = (case map_of (zip ascii_uppercase ascii_lowercase) c of Some l \<Rightarrow> l | None \<Rightarrow> c)"

text \<open>\<^verbatim>\<open>s.lower()\<close>\<close>

definition lower :: "string \<Rightarrow> string" where
  "lower s = map lower_char s"

text \<open>\<^verbatim>\<open>s.lstrip(".")\<close>\<close>

definition lstrip_dot :: "string \<Rightarrow> string" where
  "lstrip_dot s = dropWhile (\<lambda>c. c = CHR ''.'') s"

text \<open>\<^verbatim>\<open>suffix_lower = suffix.lstrip(".").lower()\<close>\<close>

definition suffix_lower :: "string \<Rightarrow> string" where
  "suffix_lower suffix = lower (lstrip_dot suffix)"

text \<open>\<^verbatim>\<open>sep.join(xs)\<close>\<close>

fun join :: "string \<Rightarrow> string list \<Rightarrow> string" where
  "join sep [] = []"
| "join sep [x] = x"
| "join sep (x # y # ys) = x @ sep @ join sep (y # ys)"

section \<open>The static tables\<close>

definition DEFAULT_RETURN_TYPES :: "(string \<times> string) list" where
  "DEFAULT_RETURN_TYPES =
    [(''BaseImage'', ''PIL.Image.Image''),
     (''BaseText'', ''str''),
     (''JsonText'', ''dict[str, Any]''),
     (''YamlText'', ''dict[str, Any]''),
     (''BaseVideo'', ''torchvision.io.VideoReader'')]"

definition TYPE_IMPORTS :: "(string \<times> string) list" where
  "TYPE_IMPORTS =
    [(''PIL.Image.Image'', ''from PIL.Image import Image as PILImage''),
     (''torchvision.io.VideoReader'', ''from torchvision.io import VideoReader'')]"

definition TYPE_STUB_NAMES :: "(string \<times> string) list" where
  "TYPE_STUB_NAMES =
    [(''PIL.Image.Image'', ''PILImage''),
     (''torchvision.io.VideoReader'', ''VideoReader'')]"

text \<open>\<^verbatim>\<open>d.get(k, default)\<close> on a dictionary given by its items.\<close>

definition dict_get :: "('k \<times> 'v) list \<Rightarrow> 'k \<Rightarrow> 'v \<Rightarrow> 'v" where
  "dict_get d k dflt = (case map_of d k of Some v \<Rightarrow> v | None \<Rightarrow> dflt)"

section \<open>The registry\<close>

text \<open>
  A handler is a class: it has a \<^verbatim>\<open>__name__\<close> and may have an attribute
  \<^verbatim>\<open>return_type\<close> (\<open>return_type_attr\<close> is \<open>Some t\<close> exactly when
  \<^verbatim>\<open>hasattr(handler_class, "return_type")\<close>). A class is truthy; a missing handler is
  \<^verbatim>\<open>None\<close>, modelled by \<^typ>\<open>'a option\<close>.
\<close>

record handler_class =
  class_name :: string
  return_type_attr :: "string option"

text \<open>
  One modality's record of the registry. \<open>base_suffixes\<close> lists the elements of
  \<^verbatim>\<open>set(registry.get("base_suffixes", []))\<close> in the order in which that set is iterated;
  a Python set fixes its elements, not that order. \<open>Custom\<close> lists the items of the dictionary
  \<^verbatim>\<open>registry.get("Custom", {})\<close> in iteration order.
\<close>

record modality_record =
  BaseIO :: "handler_class option"
  base_suffixes :: "string list"
  Custom :: "(string \<times> handler_class option) list"

text \<open>The registry: \<^verbatim>\<open>IORegistry.items()\<close> in iteration order, and \<^verbatim>\<open>IORegistry.collision_suffix\<close>.\<close>

record IORegistry =
  items :: "(string \<times> modality_record) list"
  collision_suffix :: "string set"

text \<open>The value stored per suffix, and the table: an insertion-ordered dictionary.\<close>

record suffix_entry =
  handler :: handler_class
  return_type :: string
  modality :: string
  is_collision :: bool

type_synonym suffix_table = "(string \<times> suffix_entry) list"

text \<open>What an entry resolves to: everything but the collision flag.\<close>

definition entry_resolution :: "suffix_entry \<Rightarrow> handler_class \<times> string \<times> string" where
  "entry_resolution e = (handler e, return_type e, modality e)"

section \<open>Type resolution\<close>

definition get_handler_return_type :: "handler_class \<Rightarrow> string" where
  "get_handler_return_type h =
    (case return_type_attr h of
       Some t \<Rightarrow> t
     | None \<Rightarrow> dict_get DEFAULT_RETURN_TYPES (class_name h) ''Any'')"

section \<open>Collecting the suffix table\<close>

text \<open>
  \<^verbatim>\<open>suffix_info[suffix_lower] = {...}\<close>: assignment to a dictionary key keeps the position
  of a key that is already there and appends a new one, as \<^const>\<open>AList.update\<close> does.
\<close>

definition store_entry :: "string set \<Rightarrow> string \<Rightarrow> handler_class \<Rightarrow> string \<Rightarrow> suffix_table \<Rightarrow> suffix_table" where
  "store_entry collision_suffixes m h sl suffix_info =
    AList.update sl
      \<lparr>handler = h, return_type = get_handler_return_type h, modality = m,
       is_collision = (sl \<in> collision_suffixes)\<rparr>
      suffix_info"

text \<open>The body of the loop over the base suffixes.\<close>

definition base_step ::
  "string set \<Rightarrow> string \<Rightarrow> handler_class \<Rightarrow> (string \<times> handler_class option) list \<Rightarrow> string \<Rightarrow> suffix_table \<Rightarrow> suffix_table" where
  "base_step collision_suffixes m base_io custom_handlers suffix suffix_info =
    (let sl = suffix_lower suffix in
     if sl \<notin> fst ` set custom_handlers
     then store_entry collision_suffixes m base_io sl suffix_info
     else suffix_info)"

text \<open>The body of the loop over the custom handlers.\<close>

definition custom_step ::
  "string set \<Rightarrow> string \<Rightarrow> string \<times> handler_class option \<Rightarrow> suffix_table \<Rightarrow> suffix_table" where
  "custom_step collision_suffixes m item suffix_info =
    (case snd item of
       None \<Rightarrow> suffix_info
     | Some h \<Rightarrow> store_entry collision_suffixes m h (suffix_lower (fst item)) suffix_info)"

text \<open>The body of the loop over the modalities.\<close>

definition process_modality ::
  "string set \<Rightarrow> string \<times> modality_record \<Rightarrow> suffix_table \<Rightarrow> suffix_table" where
  "process_modality collision_suffixes item suffix_info =
    (let m = fst item; registry = snd item;
         custom_handlers = Custom registry;
         suffix_info1 =
           (case BaseIO registry of
              None \<Rightarrow> suffix_info
            | Some base_io \<Rightarrow>
                fold (base_step collision_suffixes m base_io custom_handlers)
                  (base_suffixes registry) suffix_info)
     in fold (custom_step collision_suffixes m) custom_handlers suffix_info1)"

definition collect_suffix_info :: "IORegistry \<Rightarrow> suffix_table" where
  "collect_suffix_info reg = fold (process_modality (collision_suffix reg)) (items reg) []"

section \<open>Grouping by modality\<close>

text \<open>
  A set of strings is a list without repetitions, in some iteration order;
  \<^verbatim>\<open>s.add(x)\<close> is \<^const>\<open>List.insert\<close>. The groups are an insertion-ordered dictionary.
\<close>

definition group_step :: "string \<times> suffix_entry \<Rightarrow> (string \<times> string list) list \<Rightarrow> (string \<times> string list) list" where
  "group_step item groups =
    (let m = modality (snd item); rt = return_type (snd item);
         groups1 = (if m \<notin> fst ` set groups then AList.update m [] groups else groups)
     in AList.map_entry m (List.insert rt) groups1)"

definition group_by_modality :: "suffix_table \<Rightarrow> (string \<times> string list) list" where
  "group_by_modality suffix_info = fold group_step suffix_info []"

section \<open>Emitting the declarations\<close>

text \<open>\<^verbatim>\<open>TYPE_STUB_NAMES.get(t, t)\<close>\<close>

definition stub_name :: "string \<Rightarrow> string" where
  "stub_name t = dict_get TYPE_STUB_NAMES t t"

text \<open>
  The local \<^verbatim>\<open>stub_type\<close> of \<^verbatim>\<open>_generate_modality_overload\<close>. The argument lists the
  elements of the set \<^verbatim>\<open>return_types\<close>; \<^verbatim>\<open>next(iter(return_types))\<close> is evaluated only
  when there is a single one.
\<close>

definition stub_type :: "string list \<Rightarrow> string" where
  "stub_type return_types =
    (if length return_types = 1
     then stub_name (hd return_types)
     else (let type_strs = map stub_name (sort return_types)
           in ''Union['' @ join '', '' type_strs @ '']''))"

definition generate_modality_overload :: "string \<Rightarrow> string list \<Rightarrow> string list" where
  \<open>generate_modality_overload m return_types =
    [''    # modality="'' @ m @ ''"'',
     ''    @overload'',
     ''    def load('',
     ''        self,'',
     ''        path: Union[str, PathLike[str]],'',
     ''        modality: Literal["'' @ m @ ''"],'',
     ''        collision_dict: Optional[dict[str, str]] = None,'',
     ''        **kwargs: Any,'',
     ''    ) -> '' @ stub_type return_types @ '': ...'',
     '''']\<close>

definition header_lines :: "string list" where
  \<open>header_lines =
    [''"""'',
     ''Auto-generated stub file for IO.load() type hints.'',
     '''',
     ''Generated by: python -m CLTrainingFramework.io'',
     ''Do not edit manually - regenerate after registering new handlers.'',
     '''',
     ''Usage:'',
     ''    image = IO.load("test.png", modality="Image")  # -> PILImage'',
     ''    text = IO.load("file.txt", modality="Text")    # -> str'',
     ''    data = IO.load("config.json", modality="Text") # -> Union[str, dict]'',
     ''    video = IO.load("clip.mp4", modality="Video")  # -> VideoReader'',
     ''"""'',
     '''',
     ''from typing import overload, Union, Optional, Any, Literal'',
     ''from os import PathLike'']\<close>

definition class_lines :: "string list" where
  \<open>class_lines =
    ['''',
     '''',
     ''class IO:'',
     ''    """'',
     ''    IO Router with type inference based on modality parameter.'',
     '''',
     ''    When modality is specified, returns the corresponding type.'',
     ''    Without modality, returns Any (suffix-based auto-detection at runtime).'',
     ''    """'',
     '''',
     ''    def __init__(self, modality: Optional[str] = None) -> None: ...'',
     '''']\<close>

definition fallback_lines :: "string list" where
  \<open>fallback_lines =
    [''    # Fallback when modality is not specified (auto-detection)'',
     ''    @overload'',
     ''    def load('',
     ''        self,'',
     ''        path: Union[str, PathLike[str]],'',
     ''        modality: None = None,'',
     ''        collision_dict: Optional[dict[str, str]] = None,'',
     ''        **kwargs: Any,'',
     ''    ) -> Any: ...'',
     '''',
     ''    # Implementation signature'',
     ''    def load('',
     ''        self,'',
     ''        path: Union[str, PathLike[str]],'',
     ''        modality: Optional[str] = None,'',
     ''        collision_dict: Optional[dict[str, str]] = None,'',
     ''        **kwargs: Any,'',
     ''    ) -> Any: ...'',
     '''',
     ''    def write('',
     ''        self,'',
     ''        path: Union[str, PathLike[str]],'',
     ''        data: Any,'',
     ''        modality: Optional[str] = None,'',
     ''        collision_dict: Optional[dict[str, str]] = None,'',
     ''        **kwargs: Any,'',
     ''    ) -> None: ...'',
     '''',
     ''    def get_io('',
     ''        self,'',
     ''        path: Union[str, PathLike[str]],'',
     ''        modality: Optional[str] = None,'',
     ''        collision_dict: Optional[dict[str, str]] = None,'',
     ''    ) -> Any: ...'',
     '''',
     ''    def delete_cache(self, name: str) -> None: ...'',
     '''']\<close>

text \<open>
  \<^verbatim>\<open>all_return_types\<close>: the union of the groups' sets.
\<close>

definition all_return_types :: "(string \<times> string list) list \<Rightarrow> string list" where
  "all_return_types modality_groups =
    fold (\<lambda>return_types acc. fold List.insert return_types acc) (map snd modality_groups) []"

text \<open>\<^verbatim>\<open>imports_needed\<close>: the import statements of the return types that have one.\<close>

definition imports_needed :: "string list \<Rightarrow> string list" where
  "imports_needed rts =
    fold (\<lambda>rt acc. case map_of TYPE_IMPORTS rt of None \<Rightarrow> acc | Some imp \<Rightarrow> List.insert imp acc) rts []"

definition import_lines :: "(string \<times> string list) list \<Rightarrow> string list" where
  "import_lines modality_groups = sort (imports_needed (all_return_types modality_groups))"

definition modality_order :: "string list" where
  "modality_order = [''Image'', ''Text'', ''Video'']"

text \<open>The two loops that emit the overloads: the predefined order first, then the other groups.\<close>

definition overload_lines :: "(string \<times> string list) list \<Rightarrow> string list" where
  "overload_lines modality_groups =
    concat (map (\<lambda>m. case map_of modality_groups m of
                        None \<Rightarrow> []
                      | Some return_types \<Rightarrow> generate_modality_overload m return_types)
              modality_order)
    @ concat (map (\<lambda>(m, return_types).
                if m \<notin> set modality_order then generate_modality_overload m return_types else [])
              modality_groups)"

text \<open>The list \<^verbatim>\<open>lines\<close> of \<^verbatim>\<open>_generate_stub_content\<close>, for given groups.\<close>

definition stub_lines :: "(string \<times> string list) list \<Rightarrow> string list" where
  "stub_lines modality_groups =
    header_lines @ import_lines modality_groups @ class_lines
    @ overload_lines modality_groups @ fallback_lines"

definition generate_stub_content :: "suffix_table \<Rightarrow> string" where
  "generate_stub_content suffix_info =
    join [CHR 0x0A] (stub_lines (group_by_modality suffix_info))"

section \<open>The handler a record stores for a suffix\<close>

text \<open>
  Read off a record, not computed by the code: the handler that lines 80 to 100 leave in the
  table for the normalised suffix \<open>k\<close> when the record is processed. The loop over the
  overrides runs last and skips those without a handler, so the last override with a handler
  whose key normalises to \<open>k\<close> decides; otherwise the base handler, if the record has one,
  \<open>k\<close> is the normal form of a base suffix and \<open>k\<close> is not itself a key of the overrides;
  otherwise the record stores nothing for \<open>k\<close>. Lemma \<open>process_modality_stored_handler\<close>
  proves that \<open>process_modality\<close> does exactly this.
\<close>

fun last_override :: "(string \<times> handler_class option) list \<Rightarrow> string \<Rightarrow> handler_class option" where
  "last_override [] k = None"
| "last_override (c # cu) k =
    (case last_override cu k of
       Some h \<Rightarrow> Some h
     | None \<Rightarrow> (if suffix_lower (fst c) = k then snd c else None))"

definition stored_handler :: "modality_record \<Rightarrow> string \<Rightarrow> handler_class option" where
  "stored_handler r k =
    (case last_override (Custom r) k of
       Some h \<Rightarrow> Some h
     | None \<Rightarrow>
         (if k \<in> suffix_lower ` set (base_suffixes r) \<and> k \<notin> fst ` set (Custom r)
          then BaseIO r else None))"

section \<open>Handler classes used in the examples\<close>

text \<open>The handler classes named in \<^verbatim>\<open>DEFAULT_RETURN_TYPES\<close>; none declares \<^verbatim>\<open>return_type\<close>.\<close>

definition BaseImage :: handler_class where
  "BaseImage = \<lparr>class_name = ''BaseImage'', return_type_attr = None\<rparr>"

definition BaseText :: handler_class where
  "BaseText = \<lparr>class_name = ''BaseText'', return_type_attr = None\<rparr>"

definition JsonText :: handler_class where
  "JsonText = \<lparr>class_name = ''JsonText'', return_type_attr = None\<rparr>"

definition BaseVideo :: handler_class where
  "BaseVideo = \<lparr>class_name = ''BaseVideo'', return_type_attr = None\<rparr>"

section \<open>Evaluation\<close>

lemmas string_eval = suffix_lower_def lstrip_dot_def lower_def lower_char_def
  ascii_uppercase_def ascii_lowercase_def

lemmas table_eval = collect_suffix_info_def process_modality_def base_step_def custom_step_def
  store_entry_def get_handler_return_type_def dict_get_def DEFAULT_RETURN_TYPES_def

section \<open>Normalised suffixes\<close>

lemma lower_char_not_upper: "lower_char c \<notin> set ascii_uppercase"
  by (simp add: lower_char_def ascii_uppercase_def ascii_lowercase_def)

lemma lower_char_dot: "lower_char c = CHR ''.'' \<longleftrightarrow> c = CHR ''.''"
  by (simp add: lower_char_def ascii_uppercase_def ascii_lowercase_def)

lemma lower_char_idem: "lower_char (lower_char c) = lower_char c"
  by (simp add: lower_char_def ascii_uppercase_def ascii_lowercase_def)

lemma lower_idem: "lower (lower s) = lower s"
  by (simp add: lower_def lower_char_idem)

lemma lstrip_dot_lower: "lstrip_dot (lower s) = lower (lstrip_dot s)"
  by (simp add: lstrip_dot_def lower_def dropWhile_map comp_def lower_char_dot)

lemma lstrip_dot_idem: "lstrip_dot (lstrip_dot s) = lstrip_dot s"
  by (simp add: lstrip_dot_def)

lemma suffix_lower_idem: "suffix_lower (suffix_lower s) = suffix_lower s"
  by (simp add: suffix_lower_def lstrip_dot_lower lstrip_dot_idem lower_idem)

lemma suffix_lower_no_upper: "c \<in> set (suffix_lower s) \<Longrightarrow> c \<notin> set ascii_uppercase"
  by (auto simp: suffix_lower_def lower_def lower_char_not_upper)

lemma suffix_lower_no_dot: "suffix_lower s \<noteq> CHR ''.'' # t"
proof
  assume "suffix_lower s = CHR ''.'' # t"
  then have "lower (lstrip_dot s) = CHR ''.'' # t" by (simp add: suffix_lower_def)
  then obtain c cs where 1: "lstrip_dot s = c # cs" and 2: "lower_char c = CHR ''.''"
    by (auto simp: lower_def)
  from 1 have "dropWhile (\<lambda>c. c = CHR ''.'') s \<noteq> []"
    by (simp add: lstrip_dot_def)
  then have "hd (dropWhile (\<lambda>c. c = CHR ''.'') s) \<noteq> CHR ''.''"
    by (rule hd_dropWhile)
  with 1 have "c \<noteq> CHR ''.''"
    by (simp add: lstrip_dot_def)
  with 2 show False by (simp add: lower_char_dot)
qed

subsection \<open>Writes to the table\<close>

lemma map_of_store_entry:
  "map_of (store_entry cs m h sl t) =
    (map_of t)(sl \<mapsto> \<lparr>handler = h, return_type = get_handler_return_type h, modality = m,
                       is_collision = (sl \<in> cs)\<rparr>)"
  by (simp add: store_entry_def update_conv')

lemma keys_store_entry: "fst ` set (store_entry cs m h sl t) = insert sl (fst ` set t)"
  by (simp add: store_entry_def dom_update)

lemma distinct_store_entry:
  "distinct (map fst t) \<Longrightarrow> distinct (map fst (store_entry cs m h sl t))"
  by (simp add: store_entry_def distinct_update)

lemma map_of_fold_writes:
  assumes step: "\<And>x t. map_of (f x t) = map_of t ++ g x"
  shows "map_of (fold f xs t) = map_of t ++ map_of (fold f xs [])"
proof (induction xs arbitrary: t)
  case Nil
  show ?case by simp
next
  case (Cons x xs)
  have "map_of (fold f (x # xs) t) = map_of (f x t) ++ map_of (fold f xs [])"
    using Cons.IH [of "f x t"] by simp
  also have "\<dots> = map_of t ++ (g x ++ map_of (fold f xs []))"
    by (simp add: step)
  also have "g x ++ map_of (fold f xs []) = map_of (fold f (x # xs) [])"
    using Cons.IH [of "f x []"] by (simp add: step)
  finally show ?case .
qed

lemma keys_fold_writes:
  assumes step: "\<And>x t. map_of (f x t) = map_of t ++ g x"
  shows "fst ` set (fold f xs t) = fst ` set t \<union> (\<Union>x\<in>set xs. dom (g x))"
proof (induction xs arbitrary: t)
  case Nil
  show ?case by simp
next
  case (Cons x xs)
  have "fst ` set (f x t) = fst ` set t \<union> dom (g x)"
    using step [of x t] by (metis dom_map_add dom_map_of_conv_image_fst sup_commute)
  with Cons.IH [of "f x t"] show ?case by auto
qed

lemma map_of_base_step:
  "map_of (base_step cs m b cu s t) =
    map_of t ++ (if suffix_lower s \<notin> fst ` set cu
                 then [suffix_lower s \<mapsto> \<lparr>handler = b, return_type = get_handler_return_type b,
                        modality = m, is_collision = (suffix_lower s \<in> cs)\<rparr>]
                 else Map.empty)"
  by (simp add: base_step_def Let_def map_of_store_entry)

lemma map_of_custom_step:
  "map_of (custom_step cs m item t) =
    map_of t ++ (case snd item of
                   None \<Rightarrow> Map.empty
                 | Some h \<Rightarrow> [suffix_lower (fst item) \<mapsto> \<lparr>handler = h,
                       return_type = get_handler_return_type h, modality = m,
                       is_collision = (suffix_lower (fst item) \<in> cs)\<rparr>])"
  by (simp add: custom_step_def map_of_store_entry split: option.split)

lemma map_of_fold_base_step:
  "map_of (fold (base_step cs m b cu) ss t) =
    map_of t ++ map_of (fold (base_step cs m b cu) ss [])"
  by (rule map_of_fold_writes) (rule map_of_base_step)

lemma map_of_fold_custom_step:
  "map_of (fold (custom_step cs m) cu t) = map_of t ++ map_of (fold (custom_step cs m) cu [])"
  by (rule map_of_fold_writes) (rule map_of_custom_step)

lemma map_of_process_modality:
  "map_of (process_modality cs x t) = map_of t ++ map_of (process_modality cs x [])"
proof (cases "BaseIO (snd x)")
  case None
  then show ?thesis
    by (simp add: process_modality_def Let_def map_of_fold_custom_step [of cs "fst x" _ t])
next
  case (Some b)
  let ?base = "\<lambda>t. fold (base_step cs (fst x) b (Custom (snd x))) (base_suffixes (snd x)) t"
  let ?C = "map_of (fold (custom_step cs (fst x)) (Custom (snd x)) [])"
  have "map_of (process_modality cs x t) = map_of (?base t) ++ ?C"
    using Some by (simp add: process_modality_def Let_def map_of_fold_custom_step [of cs "fst x" _ "?base t"])
  also have "\<dots> = map_of t ++ (map_of (?base []) ++ ?C)"
    by (simp add: map_of_fold_base_step [of cs "fst x" b _ _ t])
  also have "map_of (?base []) ++ ?C = map_of (process_modality cs x [])"
    using Some by (simp add: process_modality_def Let_def map_of_fold_custom_step [of cs "fst x" _ "?base []"])
  finally show ?thesis .
qed

lemma map_of_fold_process_modality:
  "map_of (fold (process_modality cs) xs t) =
    map_of t ++ map_of (fold (process_modality cs) xs [])"
  by (rule map_of_fold_writes) (rule map_of_process_modality)

lemma keys_fold_process_modality:
  "fst ` set (fold (process_modality cs) xs t) =
    fst ` set t \<union> (\<Union>x\<in>set xs. fst ` set (process_modality cs x []))"
  using keys_fold_writes [of "process_modality cs" "\<lambda>x. map_of (process_modality cs x [])" xs t]
  by (simp add: map_of_process_modality [symmetric] dom_map_of_conv_image_fst)

lemma keys_collect_suffix_info:
  "fst ` set (collect_suffix_info reg) =
    (\<Union>x\<in>set (items reg). fst ` set (process_modality (collision_suffix reg) x []))"
  by (simp add: collect_suffix_info_def keys_fold_process_modality)

lemma last_writer_wins:
  assumes split: "items reg = pre @ x # post"
    and later: "\<forall>y\<in>set post. k \<notin> fst ` set (process_modality (collision_suffix reg) y [])"
    and writes: "k \<in> fst ` set (process_modality (collision_suffix reg) x [])"
  shows "map_of (collect_suffix_info reg) k = map_of (process_modality (collision_suffix reg) x []) k"
proof -
  let ?cs = "collision_suffix reg"
  let ?T = "process_modality ?cs x (fold (process_modality ?cs) pre [])"
  have "k \<notin> fst ` set (fold (process_modality ?cs) post [])"
    using later by (simp add: keys_fold_process_modality)
  then have none: "map_of (fold (process_modality ?cs) post []) k = None"
    by (simp add: map_of_eq_None_iff)
  have "collect_suffix_info reg = fold (process_modality ?cs) post ?T"
    by (simp add: collect_suffix_info_def split)
  then have "map_of (collect_suffix_info reg) k = map_of ?T k"
    using none by (simp add: map_of_fold_process_modality [of ?cs post ?T] map_add_def)
  also have "\<dots> = map_of (process_modality ?cs x []) k"
    using writes
    by (auto simp: map_of_process_modality [of ?cs x "fold (process_modality ?cs) pre []"]
        map_add_def map_of_eq_None_iff split: option.split)
  finally show ?thesis .
qed

lemma distinct_keys_process_modality:
  "distinct (map fst t) \<Longrightarrow> distinct (map fst (process_modality cs x t))"
proof -
  assume d: "distinct (map fst t)"
  have base: "distinct (map fst (fold (base_step cs m b cu) ss t))" if "distinct (map fst t)" for m b cu ss t
    using that by (induction ss arbitrary: t) (simp_all add: base_step_def Let_def distinct_store_entry)
  have custom: "distinct (map fst (fold (custom_step cs m) cu t))" if "distinct (map fst t)" for m cu t
    using that by (induction cu arbitrary: t)
      (simp_all add: custom_step_def distinct_store_entry split: option.split)
  show ?thesis
    using d by (simp add: process_modality_def Let_def base custom split: option.split)
qed

lemma distinct_keys_collect_suffix_info: "distinct (map fst (collect_suffix_info reg))"
proof -
  have "distinct (map fst (fold (process_modality cs) xs t))" if "distinct (map fst t)" for cs xs t
    using that by (induction xs arbitrary: t) (simp_all add: distinct_keys_process_modality)
  then show ?thesis by (simp add: collect_suffix_info_def)
qed

lemma count_list_distinct: "x \<in> set xs \<Longrightarrow> distinct xs \<Longrightarrow> count_list xs x = 1"
  by (induction xs) auto

lemma written_entry_fields:
  assumes "map_of (process_modality cs (m, r) []) k = Some e"
  shows "modality e = m \<and> return_type e = get_handler_return_type (handler e)
    \<and> is_collision e = (k \<in> cs)"
proof -
  let ?Q = "\<lambda>t. \<forall>k e. map_of t k = Some e \<longrightarrow>
    modality e = m \<and> return_type e = get_handler_return_type (handler e) \<and> is_collision e = (k \<in> cs)"
  have store: "?Q (store_entry cs m h sl t)" if "?Q t" for h sl t
    using that by (simp add: map_of_store_entry)
  have base: "?Q (fold (base_step cs m b cu) ss t)" if "?Q t" for b cu ss t
    using that
  proof (induction ss arbitrary: t)
    case Nil
    then show ?case by simp
  next
    case (Cons s ss)
    have "?Q (base_step cs m b cu s t)"
      unfolding base_step_def Let_def using store [OF Cons.prems] Cons.prems by presburger
    from Cons.IH [OF this] show ?case by simp
  qed
  have custom: "?Q (fold (custom_step cs m) cu t)" if "?Q t" for cu t
    using that
  proof (induction cu arbitrary: t)
    case Nil
    then show ?case by simp
  next
    case (Cons c cu)
    have "?Q (custom_step cs m c t)"
      unfolding custom_step_def using store [OF Cons.prems] Cons.prems
      by (cases "snd c") simp_all
    from Cons.IH [OF this] show ?case by simp
  qed
  have empty: "?Q []" by simp
  let ?t1 = "case BaseIO r of None \<Rightarrow> []
    | Some b \<Rightarrow> fold (base_step cs m b (Custom r)) (base_suffixes r) []"
  have "?Q ?t1"
  proof (cases "BaseIO r")
    case None
    then show ?thesis by simp
  next
    case (Some b)
    show ?thesis unfolding Some option.case by (rule base [OF empty])
  qed
  then have "?Q (fold (custom_step cs m) (Custom r) ?t1)"
    by (rule custom)
  moreover have "process_modality cs (m, r) [] = fold (custom_step cs m) (Custom r) ?t1"
    by (simp add: process_modality_def Let_def)
  ultimately have "?Q (process_modality cs (m, r) [])"
    by (simp only:)
  with assms show ?thesis by blast
qed

subsection \<open>Keys\<close>

lemma keys_fold_subset:
  assumes "\<And>x t. fst ` set (f x t) \<subseteq> fst ` set t \<union> A"
  shows "fst ` set (fold f xs t) \<subseteq> fst ` set t \<union> A"
proof (induction xs arbitrary: t)
  case Nil
  show ?case by simp
next
  case (Cons x xs)
  have "fst ` set (fold f xs (f x t)) \<subseteq> fst ` set (f x t) \<union> A"
    by (rule Cons.IH)
  also have "\<dots> \<subseteq> fst ` set t \<union> A"
    using assms [of x t] by blast
  finally show ?case by simp
qed

lemma keys_base_step: "fst ` set (base_step cs m b cu s t) \<subseteq> fst ` set t \<union> range suffix_lower"
proof (cases "suffix_lower s \<in> fst ` set cu")
  case True
  then show ?thesis by (simp add: base_step_def)
next
  case False
  then have "fst ` set (base_step cs m b cu s t) = insert (suffix_lower s) (fst ` set t)"
    by (simp add: base_step_def keys_store_entry)
  then show ?thesis by blast
qed

lemma keys_custom_step: "fst ` set (custom_step cs m c t) \<subseteq> fst ` set t \<union> range suffix_lower"
proof (cases "snd c")
  case None
  then show ?thesis by (simp add: custom_step_def)
next
  case (Some h)
  then have "fst ` set (custom_step cs m c t) = insert (suffix_lower (fst c)) (fst ` set t)"
    by (simp add: custom_step_def keys_store_entry)
  then show ?thesis by blast
qed

lemma keys_process_modality_normalised:
  "fst ` set (process_modality cs x []) \<subseteq> range suffix_lower"
proof -
  let ?t1 = "case BaseIO (snd x) of None \<Rightarrow> []
    | Some b \<Rightarrow> fold (base_step cs (fst x) b (Custom (snd x))) (base_suffixes (snd x)) []"
  have "fst ` set ?t1 \<subseteq> range suffix_lower"
  proof (cases "BaseIO (snd x)")
    case None
    then show ?thesis by simp
  next
    case (Some b)
    have "fst ` set (fold (base_step cs (fst x) b (Custom (snd x))) (base_suffixes (snd x)) [])
        \<subseteq> fst ` set ([]::suffix_table) \<union> range suffix_lower"
      by (rule keys_fold_subset) (rule keys_base_step)
    then show ?thesis unfolding Some option.case by simp
  qed
  moreover have "fst ` set (fold (custom_step cs (fst x)) (Custom (snd x)) ?t1)
      \<subseteq> fst ` set ?t1 \<union> range suffix_lower"
    by (rule keys_fold_subset) (rule keys_custom_step)
  ultimately have "fst ` set (fold (custom_step cs (fst x)) (Custom (snd x)) ?t1)
      \<subseteq> range suffix_lower"
    by (rule_tac subset_trans [where B = "fst ` set ?t1 \<union> range suffix_lower"]) simp_all
  moreover have "process_modality cs x [] = fold (custom_step cs (fst x)) (Custom (snd x)) ?t1"
    by (simp add: process_modality_def Let_def)
  ultimately show ?thesis by (simp only:)
qed

lemma keys_collect_suffix_info_normalised:
  assumes "k \<in> fst ` set (collect_suffix_info reg)"
  shows "\<exists>s. k = suffix_lower s"
proof -
  from assms obtain x where "k \<in> fst ` set (process_modality (collision_suffix reg) x [])"
    unfolding keys_collect_suffix_info by blast
  with keys_process_modality_normalised [of "collision_suffix reg" x] show ?thesis
    by blast
qed

subsection \<open>The collision flag\<close>

lemma update_apsnd:
  "map (apsnd f) (AList.update k v t) = AList.update k (f v) (map (apsnd f) t)"
  by (induction t) auto

lemma fold_related:
  assumes "\<And>x a b. R a b \<Longrightarrow> R (f x a) (g x b)" and "R a b"
  shows "R (fold f xs a) (fold g xs b)"
  using assms(2) by (induction xs arbitrary: a b) (simp_all add: assms(1))

lemma store_entry_resolution:
  assumes "map (apsnd entry_resolution) a = map (apsnd entry_resolution) b"
  shows "map (apsnd entry_resolution) (store_entry cs1 m h sl a)
    = map (apsnd entry_resolution) (store_entry cs2 m h sl b)"
  using assms by (simp add: store_entry_def update_apsnd entry_resolution_def)

lemma process_modality_resolution:
  assumes "map (apsnd entry_resolution) a = map (apsnd entry_resolution) b"
  shows "map (apsnd entry_resolution) (process_modality cs1 x a)
    = map (apsnd entry_resolution) (process_modality cs2 x b)"
proof -
  let ?R = "\<lambda>(a::suffix_table) (b::suffix_table).
    map (apsnd entry_resolution) a = map (apsnd entry_resolution) b"
  have base_step: "?R (base_step cs1 m h cu s a) (base_step cs2 m h cu s b)"
    if "?R a b" for m h cu s a b
    using that by (simp add: base_step_def Let_def store_entry_resolution)
  have custom_step: "?R (custom_step cs1 m c a) (custom_step cs2 m c b)"
    if "?R a b" for m c a b
    using that by (cases "snd c") (simp_all add: custom_step_def store_entry_resolution)
  have base: "?R (fold (base_step cs1 m h cu) ss a) (fold (base_step cs2 m h cu) ss b)"
    if "?R a b" for m h cu ss a b
    using base_step that by (rule fold_related [where R = ?R])
  have custom: "?R (fold (custom_step cs1 m) cu a) (fold (custom_step cs2 m) cu b)"
    if "?R a b" for m cu a b
    using custom_step that by (rule fold_related [where R = ?R])
  show ?thesis
  proof (cases "BaseIO (snd x)")
    case None
    then show ?thesis
      using custom [OF assms] by (simp add: process_modality_def Let_def)
  next
    case (Some h)
    then show ?thesis
      using custom [OF base [OF assms]] by (simp add: process_modality_def Let_def)
  qed
qed

lemma group_by_modality_resolution:
  assumes "map (apsnd entry_resolution) a = map (apsnd entry_resolution) b"
  shows "fold group_step a g = fold group_step b g"
  using assms
proof (induction a arbitrary: b g)
  case Nil
  then show ?case by simp
next
  case (Cons x a)
  from Cons.prems obtain y b' where b: "b = y # b'"
    and xy: "apsnd entry_resolution x = apsnd entry_resolution y"
    and rest: "map (apsnd entry_resolution) a = map (apsnd entry_resolution) b'"
    by (auto simp: Cons_eq_map_conv)
  from xy have "modality (snd x) = modality (snd y)" "return_type (snd x) = return_type (snd y)"
    by (cases x; cases y; simp add: entry_resolution_def)+
  then have "group_step x g = group_step y g"
    by (simp add: group_step_def)
  with Cons.IH [OF rest] b show ?case by simp
qed

subsection \<open>Groups\<close>

lemma map_entry_insert_distinct:
  assumes "\<And>ts. map_of g m = Some ts \<Longrightarrow> distinct ts"
    and "map_of (AList.map_entry k (List.insert rt) g) m = Some ts"
  shows "distinct ts"
proof (cases "m = k")
  case False
  with assms(2) have "map_of g m = Some ts"
    by (simp add: map_of_map_entry)
  then show ?thesis by (rule assms(1))
next
  case True
  show ?thesis
  proof (cases "map_of g k")
    case None
    with assms(2) True show ?thesis by (simp add: map_of_map_entry)
  next
    case (Some ts')
    with assms(2) True have ts: "ts = List.insert rt ts'"
      by (simp add: map_of_map_entry)
    from Some True have "distinct ts'" by (simp add: assms(1))
    then show ?thesis unfolding ts by simp
  qed
qed

lemma group_step_distinct:
  assumes "\<And>m ts. map_of g m = Some ts \<Longrightarrow> distinct ts"
    and "map_of (group_step x g) m = Some ts"
  shows "distinct ts"
proof -
  define k where "k = modality (snd x)"
  define rt where "rt = return_type (snd x)"
  define g1 where "g1 = (if k \<notin> fst ` set g then AList.update k [] g else g)"
  have g1: "distinct ts" if "map_of g1 m = Some ts" for m ts
  proof (cases "k \<in> fst ` set g")
    case True
    with that have "map_of g m = Some ts" by (simp add: g1_def)
    then show ?thesis by (rule assms(1))
  next
    case False
    with that have upd: "((map_of g)(k \<mapsto> [])) m = Some ts"
      by (simp add: g1_def update_conv')
    show ?thesis
    proof (cases "m = k")
      case True
      with upd have "ts = []" by simp
      then show ?thesis by simp
    next
      case False
      with upd have "map_of g m = Some ts" by simp
      then show ?thesis by (rule assms(1))
    qed
  qed
  have "group_step x g = AList.map_entry k (List.insert rt) g1"
    by (simp add: group_step_def Let_def k_def rt_def g1_def)
  with assms(2) have "map_of (AList.map_entry k (List.insert rt) g1) m = Some ts"
    by simp
  with g1 show ?thesis by (rule map_entry_insert_distinct)
qed

lemma fold_group_step_distinct:
  assumes "\<And>m ts. map_of g m = Some ts \<Longrightarrow> distinct ts"
    and "map_of (fold group_step xs g) m = Some ts"
  shows "distinct ts"
  using assms
proof (induction xs arbitrary: g)
  case Nil
  from Nil.prems(2) have "map_of g m = Some ts" by simp
  then show ?case by (rule Nil.prems(1))
next
  case (Cons x xs)
  show ?case
  proof (rule Cons.IH)
    show "distinct ts'" if "map_of (group_step x g) m' = Some ts'" for m' ts'
      using Cons.prems(1) that by (rule group_step_distinct)
    from Cons.prems(2) show "map_of (fold group_step xs (group_step x g)) m = Some ts"
      by simp
  qed
qed

lemma group_by_modality_distinct:
  assumes "map_of (group_by_modality suffix_info) m = Some ts"
  shows "distinct ts"
proof (rule fold_group_step_distinct)
  from assms show "map_of (fold group_step suffix_info []) m = Some ts"
    by (simp add: group_by_modality_def)
  show "distinct ts'" if "map_of [] m' = Some ts'" for m' :: string and ts' :: "string list"
    using that by simp
qed

lemma distinct_singleton_set: "distinct ts \<Longrightarrow> set ts = {T} \<Longrightarrow> ts = [T]"
proof -
  assume d: "distinct ts" and s: "set ts = {T}"
  then have "length ts = 1"
    using distinct_card [of ts] by simp
  then obtain a where "ts = [a]"
    by (cases ts) auto
  with s show ?thesis by simp
qed

lemma sort_distinct: "distinct xs \<Longrightarrow> sort xs = sorted_list_of_set (set xs)"
  by (simp add: sorted_list_of_set_sort_remdups distinct_remdups_id)

lemmas emit_eval = generate_modality_overload_def stub_type_def stub_name_def dict_get_def
  TYPE_STUB_NAMES_def

lemmas group_eval = group_by_modality_def group_step_def

subsection \<open>Import lines\<close>

lemma set_fold_insert: "set (fold List.insert xs acc) = set xs \<union> set acc"
  by (induction xs arbitrary: acc) auto

lemma distinct_fold_insert: "distinct acc \<Longrightarrow> distinct (fold List.insert xs acc)"
  by (induction xs arbitrary: acc) auto

lemma set_fold_fold_insert:
  "set (fold (\<lambda>xs acc. fold List.insert xs acc) xss acc) = (\<Union>xs\<in>set xss. set xs) \<union> set acc"
  by (induction xss arbitrary: acc) (auto simp: set_fold_insert)

lemma set_all_return_types:
  "set (all_return_types g) = (\<Union>ts\<in>snd ` set g. set ts)"
  by (simp add: all_return_types_def set_fold_fold_insert)

lemma set_fold_imports:
  "set (fold (\<lambda>rt acc. case map_of TYPE_IMPORTS rt of None \<Rightarrow> acc
                          | Some imp \<Rightarrow> List.insert imp acc) rts acc)
    = (\<Union>t\<in>set rts. set_option (map_of TYPE_IMPORTS t)) \<union> set acc"
proof (induction rts arbitrary: acc)
  case Nil
  show ?case by simp
next
  case (Cons rt rts)
  show ?case
    by (cases "map_of TYPE_IMPORTS rt") (auto simp: Cons.IH)
qed

lemma distinct_fold_imports:
  "distinct acc \<Longrightarrow>
    distinct (fold (\<lambda>rt acc. case map_of TYPE_IMPORTS rt of None \<Rightarrow> acc
                          | Some imp \<Rightarrow> List.insert imp acc) rts acc)"
proof (induction rts arbitrary: acc)
  case Nil
  then show ?case by simp
next
  case (Cons rt rts)
  then show ?case
    by (cases "map_of TYPE_IMPORTS rt") simp_all
qed

lemma set_imports_needed:
  "set (imports_needed rts) = (\<Union>t\<in>set rts. set_option (map_of TYPE_IMPORTS t))"
  by (simp add: imports_needed_def set_fold_imports)

lemma distinct_imports_needed: "distinct (imports_needed rts)"
  by (simp add: imports_needed_def distinct_fold_imports)

lemma import_lines_sorted_set:
  "import_lines g
    = sorted_list_of_set (\<Union>ts\<in>snd ` set g. \<Union>t\<in>set ts. set_option (map_of TYPE_IMPORTS t))"
proof -
  have "import_lines g = sorted_list_of_set (set (imports_needed (all_return_types g)))"
    by (simp add: import_lines_def sort_distinct distinct_imports_needed)
  also have "set (imports_needed (all_return_types g))
      = (\<Union>ts\<in>snd ` set g. \<Union>t\<in>set ts. set_option (map_of TYPE_IMPORTS t))"
    by (simp add: set_imports_needed set_all_return_types)
  finally show ?thesis .
qed

subsection \<open>What one record stores for a suffix\<close>

lemma fold_custom_step_skip:
  assumes "\<forall>c\<in>set cu. suffix_lower (fst c) = k \<longrightarrow> snd c = None"
  shows "map_of (fold (custom_step cs m) cu t) k = map_of t k"
  using assms
proof (induction cu arbitrary: t)
  case Nil
  show ?case by simp
next
  case (Cons c cu)
  have step: "map_of (custom_step cs m c t) k = map_of t k"
  proof (cases "snd c")
    case None
    then show ?thesis by (simp add: custom_step_def)
  next
    case (Some h)
    with Cons.prems have "suffix_lower (fst c) \<noteq> k" by auto
    with Some show ?thesis by (simp add: custom_step_def map_of_store_entry)
  qed
  have "map_of (fold (custom_step cs m) cu (custom_step cs m c t)) k
      = map_of (custom_step cs m c t) k"
    using Cons.prems by (intro Cons.IH) simp
  with step show ?case by simp
qed

lemma fold_custom_step_last:
  assumes "cu = cu1 @ (s', Some h) # cu2"
    and "suffix_lower s' = k"
    and "\<forall>c\<in>set cu2. suffix_lower (fst c) = k \<longrightarrow> snd c = None"
  shows "map_of (fold (custom_step cs m) cu t) k
    = Some \<lparr>handler = h, return_type = get_handler_return_type h, modality = m,
            is_collision = (k \<in> cs)\<rparr>"
proof -
  let ?t1 = "custom_step cs m (s', Some h) (fold (custom_step cs m) cu1 t)"
  have "fold (custom_step cs m) cu t = fold (custom_step cs m) cu2 ?t1"
    by (simp add: assms(1))
  then have "map_of (fold (custom_step cs m) cu t) k = map_of ?t1 k"
    using fold_custom_step_skip [OF assms(3), of cs m ?t1] by simp
  also have "\<dots> = Some \<lparr>handler = h, return_type = get_handler_return_type h, modality = m,
            is_collision = (k \<in> cs)\<rparr>"
    by (simp add: custom_step_def map_of_store_entry assms(2))
  finally show ?thesis .
qed

lemma fold_base_step_skip:
  assumes "k \<in> fst ` set cu"
  shows "map_of (fold (base_step cs m b cu) ss t) k = map_of t k"
proof (induction ss arbitrary: t)
  case Nil
  show ?case by simp
next
  case (Cons s ss)
  have "map_of (base_step cs m b cu s t) k = map_of t k"
  proof (cases "suffix_lower s \<in> fst ` set cu")
    case True
    then show ?thesis by (simp add: base_step_def)
  next
    case False
    with assms have "suffix_lower s \<noteq> k" by auto
    with False show ?thesis by (simp add: base_step_def map_of_store_entry)
  qed
  with Cons.IH [of "base_step cs m b cu s t"] show ?case by simp
qed

lemma process_modality_custom:
  "process_modality cs (m, r) t
    = fold (custom_step cs m) (Custom r)
        (case BaseIO r of None \<Rightarrow> t
         | Some b \<Rightarrow> fold (base_step cs m b (Custom r)) (base_suffixes r) t)"
  by (simp add: process_modality_def Let_def)

lemma process_modality_override:
  assumes "Custom r = cu1 @ (s', Some h) # cu2"
    and "suffix_lower s' = k"
    and "\<forall>c\<in>set cu2. suffix_lower (fst c) = k \<longrightarrow> snd c = None"
  shows "map_of (process_modality cs (m, r) t) k
    = Some \<lparr>handler = h, return_type = get_handler_return_type h, modality = m,
            is_collision = (k \<in> cs)\<rparr>"
  unfolding process_modality_custom using assms by (rule fold_custom_step_last)

lemma process_modality_null_override:
  assumes "k \<in> fst ` set (Custom r)"
    and "\<forall>c\<in>set (Custom r). suffix_lower (fst c) = k \<longrightarrow> snd c = None"
  shows "map_of (process_modality cs (m, r) t) k = map_of t k"
proof -
  let ?t1 = "case BaseIO r of None \<Rightarrow> t
         | Some b \<Rightarrow> fold (base_step cs m b (Custom r)) (base_suffixes r) t"
  have "map_of (process_modality cs (m, r) t) k = map_of ?t1 k"
    unfolding process_modality_custom using assms(2) by (rule fold_custom_step_skip)
  also have "\<dots> = map_of t k"
  proof (cases "BaseIO r")
    case None
    then show ?thesis by simp
  next
    case (Some b)
    show ?thesis unfolding Some option.case using assms(1) by (rule fold_base_step_skip)
  qed
  finally show ?thesis .
qed

subsection \<open>Joining lines\<close>

lemma join_append:
  "xs \<noteq> [] \<Longrightarrow> ys \<noteq> [] \<Longrightarrow> join sep (xs @ ys) = join sep xs @ sep @ join sep ys"
proof (induction sep xs rule: join.induct)
  case (1 sep)
  then show ?case by simp
next
  case (2 sep x)
  then show ?case by (cases ys) simp_all
next
  case (3 sep x y ys')
  then show ?case by simp
qed

lemma stub_type_depends_on_set:
  assumes "distinct xs" and "distinct ys" and "set xs = set ys"
  shows "stub_type xs = stub_type ys"
proof -
  have len: "length xs = length ys"
    using assms by (metis distinct_card)
  have srt: "sort xs = sort ys"
    using assms by (simp add: sort_distinct)
  show ?thesis
  proof (cases "length xs = 1")
    case True
    then obtain a where xs: "xs = [a]" by (cases xs) auto
    from True len obtain b where ys: "ys = [b]" by (cases ys) auto
    from assms(3) xs ys have "a = b" by simp
    with xs ys show ?thesis by simp
  next
    case False
    with len srt show ?thesis by (simp add: stub_type_def)
  qed
qed

text \<open>
  Two enumerations of the same base suffixes: the groups come out in different orders.
\<close>

lemma groups_1:
  "group_by_modality (collect_suffix_info
      \<lparr>items = [(''Audio'', \<lparr>BaseIO = Some BaseText, base_suffixes = [''dat'', ''wav''],
                            Custom = []\<rparr>),
                (''Depth'', \<lparr>BaseIO = Some BaseImage, base_suffixes = [''dat''],
                            Custom = []\<rparr>)],
       collision_suffix = {''dat''}\<rparr>)
    = [(''Depth'', [''PIL.Image.Image'']), (''Audio'', [''str''])]"
  by (simp add: table_eval string_eval group_eval Let_def BaseText_def BaseImage_def)

lemma groups_2:
  "group_by_modality (collect_suffix_info
      \<lparr>items = [(''Audio'', \<lparr>BaseIO = Some BaseText, base_suffixes = [''wav'', ''dat''],
                            Custom = []\<rparr>),
                (''Depth'', \<lparr>BaseIO = Some BaseImage, base_suffixes = [''dat''],
                            Custom = []\<rparr>)],
       collision_suffix = {''dat''}\<rparr>)
    = [(''Audio'', [''str'']), (''Depth'', [''PIL.Image.Image''])]"
  by (simp add: table_eval string_eval group_eval Let_def BaseText_def BaseImage_def)

lemma header_lines_nonempty: "header_lines \<noteq> []"
  by (simp add: header_lines_def)

lemma fallback_lines_nonempty: "fallback_lines \<noteq> []"
  by (simp add: fallback_lines_def)

lemma join_overloads_first:
  "join sep (generate_modality_overload m ts @ rest)
    = ''    # modality=\"'' @ m @ ''\"'' @ sep
      @ join sep (tl (generate_modality_overload m ts) @ rest)"
  by (simp add: generate_modality_overload_def)

subsection \<open>The handler a record stores\<close>

lemma fold_custom_step_last_override:
  "map_of (fold (custom_step cs m) cu t) k
    = (case last_override cu k of
         None \<Rightarrow> map_of t k
       | Some h \<Rightarrow> Some \<lparr>handler = h, return_type = get_handler_return_type h, modality = m,
                         is_collision = (k \<in> cs)\<rparr>)"
proof (induction cu arbitrary: t)
  case Nil
  show ?case by simp
next
  case (Cons c cu)
  have step: "map_of (custom_step cs m c t) k
      = (case (if suffix_lower (fst c) = k then snd c else None) of
           None \<Rightarrow> map_of t k
         | Some h \<Rightarrow> Some \<lparr>handler = h, return_type = get_handler_return_type h, modality = m,
                           is_collision = (k \<in> cs)\<rparr>)"
    by (cases "snd c") (auto simp: custom_step_def map_of_store_entry)
  show ?case
  proof (cases "last_override cu k")
    case None
    with Cons.IH [of "custom_step cs m c t"] step show ?thesis by simp
  next
    case (Some h)
    with Cons.IH [of "custom_step cs m c t"] show ?thesis by simp
  qed
qed

lemma fold_base_step_lookup:
  "map_of (fold (base_step cs m b cu) ss t) k
    = (if k \<in> suffix_lower ` set ss \<and> k \<notin> fst ` set cu
       then Some \<lparr>handler = b, return_type = get_handler_return_type b, modality = m,
                  is_collision = (k \<in> cs)\<rparr>
       else map_of t k)"
proof (induction ss arbitrary: t)
  case Nil
  show ?case by simp
next
  case (Cons s ss)
  have step: "map_of (base_step cs m b cu s t) k
      = (if k = suffix_lower s \<and> k \<notin> fst ` set cu
         then Some \<lparr>handler = b, return_type = get_handler_return_type b, modality = m,
                    is_collision = (k \<in> cs)\<rparr>
         else map_of t k)"
  proof (cases "suffix_lower s \<in> fst ` set cu")
    case True
    then show ?thesis by (cases "k = suffix_lower s") (simp_all add: base_step_def)
  next
    case False
    then show ?thesis
      by (cases "k = suffix_lower s") (simp_all add: base_step_def map_of_store_entry)
  qed
  have "map_of (fold (base_step cs m b cu) (s # ss) t) k
      = (if k \<in> suffix_lower ` set ss \<and> k \<notin> fst ` set cu
         then Some \<lparr>handler = b, return_type = get_handler_return_type b, modality = m,
                    is_collision = (k \<in> cs)\<rparr>
         else map_of (base_step cs m b cu s t) k)"
    using Cons.IH [of "base_step cs m b cu s t"] by simp
  then show ?case
    unfolding step by (cases "k = suffix_lower s") simp_all
qed

lemma process_modality_stored_handler:
  "map_of (process_modality cs (m, r) t) k
    = (case stored_handler r k of
         None \<Rightarrow> map_of t k
       | Some h \<Rightarrow> Some \<lparr>handler = h, return_type = get_handler_return_type h, modality = m,
                         is_collision = (k \<in> cs)\<rparr>)"
proof (cases "last_override (Custom r) k")
  case (Some h)
  then show ?thesis
    by (simp add: process_modality_custom fold_custom_step_last_override stored_handler_def)
next
  case None
  show ?thesis
  proof (cases "BaseIO r")
    case N: None
    with None show ?thesis
      by (simp add: process_modality_custom fold_custom_step_last_override stored_handler_def)
  next
    case (Some b)
    with None show ?thesis
      by (simp add: process_modality_custom fold_custom_step_last_override stored_handler_def
          fold_base_step_lookup)
  qed
qed

lemma stores_iff_stored_handler:
  "k \<in> fst ` set (process_modality cs x []) \<longleftrightarrow> stored_handler (snd x) k \<noteq> None"
proof -
  obtain m r where x: "x = (m, r)" by (cases x)
  have "map_of (process_modality cs (m, r) []) k \<noteq> None \<longleftrightarrow> stored_handler r k \<noteq> None"
    by (cases "stored_handler r k") (simp_all add: process_modality_stored_handler)
  then show ?thesis
    unfolding x snd_conv by (simp only: map_of_eq_None_iff not_not)
qed

section \<open>Claims\<close>

text \<open>
  C3: type resolution follows a fixed order. A handler class that has the attribute
  \<^verbatim>\<open>return_type\<close> resolves to that attribute, whatever its name; one without it resolves to
  the entry of \<^verbatim>\<open>DEFAULT_RETURN_TYPES\<close> for its class name; one without it whose class name
  is not in that table resolves to \<^verbatim>\<open>Any\<close>. The three cases cover every handler class, and
  no branch of the function raises.
\<close>

theorem get_handler_return_type_order:
  "(return_type_attr h = Some t \<longrightarrow> get_handler_return_type h = t)
   \<and> (return_type_attr h = None \<and> map_of DEFAULT_RETURN_TYPES (class_name h) = Some t
        \<longrightarrow> get_handler_return_type h = t)
   \<and> (return_type_attr h = None \<and> class_name h \<notin> fst ` set DEFAULT_RETURN_TYPES
        \<longrightarrow> get_handler_return_type h = ''Any'')"
proof -
  have "map_of DEFAULT_RETURN_TYPES (class_name h) = None"
    if "class_name h \<notin> fst ` set DEFAULT_RETURN_TYPES"
    using that by (simp add: map_of_eq_None_iff)
  then show ?thesis
    by (auto simp: get_handler_return_type_def dict_get_def)
qed

theorem get_handler_return_type_order_witness:
  "get_handler_return_type \<lparr>class_name = ''JsonText'', return_type_attr = Some ''bytes''\<rparr> = ''bytes''
   \<and> get_handler_return_type \<lparr>class_name = ''JsonText'', return_type_attr = None\<rparr> = ''dict[str, Any]''
   \<and> get_handler_return_type \<lparr>class_name = ''NpyArray'', return_type_attr = None\<rparr> = ''Any''"
  using get_handler_return_type_order
      [of "\<lparr>class_name = ''JsonText'', return_type_attr = Some ''bytes''\<rparr>" "''bytes''"]
    get_handler_return_type_order
      [of "\<lparr>class_name = ''JsonText'', return_type_attr = None\<rparr>" "''dict[str, Any]''"]
    get_handler_return_type_order
      [of "\<lparr>class_name = ''NpyArray'', return_type_attr = None\<rparr>" "''x''"]
  by (simp add: DEFAULT_RETURN_TYPES_def)

text \<open>
  C4 (as amended): the table is keyed by the normalised suffix alone. When the records of two
  different modalities both store an entry for the suffix \<open>k\<close> (through an override with a
  handler, or through the base handler), the final table has exactly one entry for \<open>k\<close>,
  and it is the entry written by the record processed later, the last one to store \<open>k\<close>:
  its handler, the return type resolved from that handler and its modality, not the earlier
  record's. Which handler a record stores is read off the record by \<open>stored_handler\<close>.
\<close>

theorem cross_modality_overwrite:
  assumes "items reg = pre @ (m2, r2) # post"
    and "(m1, r1) \<in> set pre" and "m1 \<noteq> m2"
    and "stored_handler r1 k = Some h1"
    and "stored_handler r2 k = Some h2"
    and "\<forall>x\<in>set post. stored_handler (snd x) k = None"
  shows "count_list (map fst (collect_suffix_info reg)) k = 1
    \<and> map_of (collect_suffix_info reg) k
      = Some \<lparr>handler = h2, return_type = get_handler_return_type h2, modality = m2,
              is_collision = (k \<in> collision_suffix reg)\<rparr>
    \<and> map_of (collect_suffix_info reg) k
      \<noteq> Some \<lparr>handler = h1, return_type = get_handler_return_type h1, modality = m1,
              is_collision = (k \<in> collision_suffix reg)\<rparr>"
proof -
  let ?cs = "collision_suffix reg"
  let ?e = "\<lparr>handler = h2, return_type = get_handler_return_type h2, modality = m2,
              is_collision = (k \<in> ?cs)\<rparr>"
  have later: "\<forall>x\<in>set post. k \<notin> fst ` set (process_modality ?cs x [])"
    using assms(6) by (simp add: stores_iff_stored_handler)
  have own: "k \<in> fst ` set (process_modality ?cs (m2, r2) [])"
    using assms(5) by (simp add: stores_iff_stored_handler)
  have "map_of (collect_suffix_info reg) k = map_of (process_modality ?cs (m2, r2) []) k"
    using assms(1) later own by (rule last_writer_wins)
  then have eq: "map_of (collect_suffix_info reg) k = Some ?e"
    by (simp add: process_modality_stored_handler assms(5))
  then have "map_of (collect_suffix_info reg) k \<noteq> None"
    by simp
  then have "k \<in> set (map fst (collect_suffix_info reg))"
    by (simp only: map_of_eq_None_iff not_not set_map)
  then have cnt: "count_list (map fst (collect_suffix_info reg)) k = 1"
    using distinct_keys_collect_suffix_info [of reg] by (rule count_list_distinct)
  have "map_of (collect_suffix_info reg) k
      \<noteq> Some \<lparr>handler = h1, return_type = get_handler_return_type h1, modality = m1,
              is_collision = (k \<in> ?cs)\<rparr>"
    unfolding eq using assms(3) by simp
  with cnt eq show ?thesis by (intro conjI)
qed

theorem cross_modality_overwrite_witness:
  "count_list (map fst (collect_suffix_info
      \<lparr>items = [(''Image'', \<lparr>BaseIO = Some BaseImage, base_suffixes = [''dat''], Custom = []\<rparr>),
                (''Video'', \<lparr>BaseIO = Some BaseVideo, base_suffixes = [''mp4''],
                            Custom = [(''.DAT'', Some JsonText)]\<rparr>)],
       collision_suffix = {}\<rparr>)) ''dat'' = 1
   \<and> map_of (collect_suffix_info
      \<lparr>items = [(''Image'', \<lparr>BaseIO = Some BaseImage, base_suffixes = [''dat''], Custom = []\<rparr>),
                (''Video'', \<lparr>BaseIO = Some BaseVideo, base_suffixes = [''mp4''],
                            Custom = [(''.DAT'', Some JsonText)]\<rparr>)],
       collision_suffix = {}\<rparr>) ''dat''
     = Some \<lparr>handler = JsonText, return_type = ''dict[str, Any]'',
             modality = ''Video'', is_collision = False\<rparr>"
proof -
  let ?ri = "\<lparr>BaseIO = Some BaseImage, base_suffixes = [''dat''], Custom = []\<rparr>"
  let ?rv = "\<lparr>BaseIO = Some BaseVideo, base_suffixes = [''mp4''],
              Custom = [(''.DAT'', Some JsonText)]\<rparr>"
  let ?reg = "\<lparr>items = [(''Image'', ?ri), (''Video'', ?rv)], collision_suffix = {}\<rparr>"
  have 1: "items ?reg = [(''Image'', ?ri)] @ (''Video'', ?rv) # []" by simp
  have 2: "(''Image'', ?ri) \<in> set [(''Image'', ?ri)]" by simp
  have 3: "''Image'' \<noteq> ''Video''" by simp
  have 4: "stored_handler ?ri ''dat'' = Some BaseImage"
    by (simp add: stored_handler_def string_eval)
  have 5: "stored_handler ?rv ''dat'' = Some JsonText"
    by (simp add: stored_handler_def string_eval)
  have 6: "\<forall>x\<in>set []. stored_handler (snd x) ''dat'' = None"
    by simp
  have 7: "get_handler_return_type JsonText = ''dict[str, Any]''"
    by (simp add: get_handler_return_type_def dict_get_def DEFAULT_RETURN_TYPES_def JsonText_def)
  from cross_modality_overwrite [OF 1 2 3 4 5 6] show ?thesis
    unfolding 7 by simp
qed

text \<open>
  C4 as stated fails: a modality that registers the suffix need not store it. Here
  \<^verbatim>\<open>Video\<close> is processed later and lists \<^verbatim>\<open>dat\<close> both as a base suffix and as an override
  without a handler, so it stores nothing and the final entry is the one of \<^verbatim>\<open>Image\<close>.
\<close>

theorem cross_modality_overwrite_counterexample:
  "map_of (collect_suffix_info
      \<lparr>items = [(''Image'', \<lparr>BaseIO = Some BaseImage, base_suffixes = [''dat''], Custom = []\<rparr>),
                (''Video'', \<lparr>BaseIO = Some BaseVideo, base_suffixes = [''dat''],
                            Custom = [(''dat'', None)]\<rparr>)],
       collision_suffix = {}\<rparr>) ''dat''
     = Some \<lparr>handler = BaseImage, return_type = ''PIL.Image.Image'',
             modality = ''Image'', is_collision = False\<rparr>"
  by (simp add: table_eval string_eval Let_def BaseImage_def BaseVideo_def)

text \<open>
  C8: suffixes are normalised in the same way wherever they are looked up or stored. Every
  key of the final table is a normalised suffix: it has no upper-case letter, does not start
  with \<^verbatim>\<open>.\<close>, and normalising it again changes nothing. The loop over the base suffixes
  treats a suffix exactly as it treats its normalised form (so the test for an existing
  override is made on the normalised form), and so does the loop over the overrides.
\<close>

theorem suffix_keys_normalised:
  assumes "k \<in> fst ` set (collect_suffix_info reg)"
  shows "(\<forall>c\<in>set k. c \<notin> set ascii_uppercase) \<and> (\<forall>t. k \<noteq> CHR ''.'' # t)
    \<and> suffix_lower k = k
    \<and> base_step cs m b cu s t = base_step cs m b cu (suffix_lower s) t
    \<and> custom_step cs m (s, h) t = custom_step cs m (suffix_lower s, h) t"
proof -
  obtain s' where k: "k = suffix_lower s'"
    using assms keys_collect_suffix_info_normalised by blast
  have 1: "\<forall>c\<in>set k. c \<notin> set ascii_uppercase"
    unfolding k using suffix_lower_no_upper by blast
  have 2: "\<forall>t. k \<noteq> CHR ''.'' # t"
    unfolding k by (simp add: suffix_lower_no_dot)
  have 3: "suffix_lower k = k"
    unfolding k by (rule suffix_lower_idem)
  have 4: "base_step cs m b cu s t = base_step cs m b cu (suffix_lower s) t"
    by (simp add: base_step_def suffix_lower_idem)
  have 5: "custom_step cs m (s, h) t = custom_step cs m (suffix_lower s, h) t"
    by (cases h) (simp_all add: custom_step_def suffix_lower_idem)
  from 1 2 3 4 5 show ?thesis by (intro conjI)
qed

theorem suffix_keys_normalised_witness:
  "''yaml'' \<in> fst ` set (collect_suffix_info
      \<lparr>items = [(''Text'', \<lparr>BaseIO = Some BaseText, base_suffixes = [''.TXT''],
                           Custom = [(''..YAML'', Some JsonText)]\<rparr>)],
       collision_suffix = {}\<rparr>)
   \<and> suffix_lower ''yaml'' = ''yaml''
   \<and> base_step {} ''Text'' BaseText [(''..YAML'', Some JsonText)] ''.TXT'' []
     = base_step {} ''Text'' BaseText [(''..YAML'', Some JsonText)] (suffix_lower ''.TXT'') []"
proof -
  let ?reg = "\<lparr>items = [(''Text'', \<lparr>BaseIO = Some BaseText, base_suffixes = [''.TXT''],
                           Custom = [(''..YAML'', Some JsonText)]\<rparr>)],
       collision_suffix = {}\<rparr>"
  have 1: "''yaml'' \<in> fst ` set (collect_suffix_info ?reg)"
    by (simp add: table_eval string_eval Let_def)
  from suffix_keys_normalised [OF 1, of "{}" "''Text''" BaseText "[(''..YAML'', Some JsonText)]"
      "''.TXT''" "[]" None] 1
  show ?thesis by (elim conjE) (intro conjI; assumption)
qed

text \<open>
  C6: the collision set affects the \<^verbatim>\<open>is_collision\<close> flag only. For the same registry
  records and any two collision sets, the two tables have the same keys in the same order,
  each with the same handler, return type and modality, and the groups of return types per
  modality are the same.
\<close>

theorem collision_flag_independence:
  "map (apsnd entry_resolution) (collect_suffix_info \<lparr>items = its, collision_suffix = cs1\<rparr>)
     = map (apsnd entry_resolution) (collect_suffix_info \<lparr>items = its, collision_suffix = cs2\<rparr>)
   \<and> group_by_modality (collect_suffix_info \<lparr>items = its, collision_suffix = cs1\<rparr>)
     = group_by_modality (collect_suffix_info \<lparr>items = its, collision_suffix = cs2\<rparr>)"
proof -
  let ?R = "\<lambda>(a::suffix_table) (b::suffix_table).
    map (apsnd entry_resolution) a = map (apsnd entry_resolution) b"
  have "?R [] []" by simp
  with process_modality_resolution
  have "?R (fold (process_modality cs1) its []) (fold (process_modality cs2) its [])"
    by (rule fold_related [where R = ?R])
  then have 1: "?R (collect_suffix_info \<lparr>items = its, collision_suffix = cs1\<rparr>)
      (collect_suffix_info \<lparr>items = its, collision_suffix = cs2\<rparr>)"
    by (simp add: collect_suffix_info_def)
  then have 2: "group_by_modality (collect_suffix_info \<lparr>items = its, collision_suffix = cs1\<rparr>)
     = group_by_modality (collect_suffix_info \<lparr>items = its, collision_suffix = cs2\<rparr>)"
    unfolding group_by_modality_def by (rule group_by_modality_resolution)
  from 1 2 show ?thesis by (rule conjI)
qed

text \<open>
  C7: a modality with a single resolved type gets no union. If the group of modality \<open>M\<close>
  holds exactly one type \<open>T\<close>, the return type of the overload emitted for \<open>M\<close> is the
  name registered for \<open>T\<close> in \<^verbatim>\<open>TYPE_STUB_NAMES\<close>, or \<open>T\<close> itself when none is registered,
  and the overload's last line is \<^verbatim>\<open>) -> \<close> followed by that name and \<^verbatim>\<open>: ...\<close>.
\<close>

theorem single_type_overload:
  assumes "map_of (group_by_modality suffix_info) M = Some ts" and "set ts = {T}"
  shows "stub_type ts = (case map_of TYPE_STUB_NAMES T of Some alias \<Rightarrow> alias | None \<Rightarrow> T)
    \<and> generate_modality_overload M ts ! 8 = ''    ) -> '' @ stub_type ts @ '': ...''"
proof -
  have "distinct ts"
    using assms(1) by (rule group_by_modality_distinct)
  then have "ts = [T]"
    using assms(2) by (rule distinct_singleton_set)
  then show ?thesis
    by (simp add: generate_modality_overload_def stub_type_def stub_name_def dict_get_def)
qed

theorem single_type_overload_witness:
  "map_of (group_by_modality (collect_suffix_info
      \<lparr>items = [(''Image'', \<lparr>BaseIO = Some BaseImage, base_suffixes = [''png'', ''jpg''],
                            Custom = []\<rparr>)],
       collision_suffix = {}\<rparr>)) ''Image'' = Some [''PIL.Image.Image'']
   \<and> stub_type [''PIL.Image.Image''] = ''PILImage''
   \<and> generate_modality_overload ''Image'' [''PIL.Image.Image''] ! 8 = ''    ) -> PILImage: ...''"
proof -
  let ?si = "collect_suffix_info
      \<lparr>items = [(''Image'', \<lparr>BaseIO = Some BaseImage, base_suffixes = [''png'', ''jpg''],
                            Custom = []\<rparr>)],
       collision_suffix = {}\<rparr>"
  have 1: "map_of (group_by_modality ?si) ''Image'' = Some [''PIL.Image.Image'']"
    by (simp add: table_eval string_eval group_eval Let_def BaseImage_def)
  have 2: "set [''PIL.Image.Image''] = {''PIL.Image.Image''}"
    by simp
  from single_type_overload [OF 1 2] 1 show ?thesis
    by (simp add: TYPE_STUB_NAMES_def)
qed

text \<open>
  C1 (as amended): a modality whose group holds two or more types gets a union that lists
  every type of the group exactly once. The members are ordered by the lexicographic order
  of the resolved type strings themselves, and each is then replaced by its name in
  \<^verbatim>\<open>TYPE_STUB_NAMES\<close>: the code sorts before it substitutes. For the set of
  \<^verbatim>\<open>str\<close> and \<^verbatim>\<open>dict[str, Any]\<close> this gives \<^verbatim>\<open>Union[dict[str, Any], str]\<close>.
\<close>

theorem union_sorted_by_type:
  assumes "map_of (group_by_modality suffix_info) M = Some ts" and "2 \<le> card (set ts)"
  shows "stub_type ts
      = ''Union['' @ join '', '' (map stub_name (sorted_list_of_set (set ts))) @ '']''
    \<and> generate_modality_overload M ts ! 8 = ''    ) -> '' @ stub_type ts @ '': ...''"
proof -
  have d: "distinct ts"
    using assms(1) by (rule group_by_modality_distinct)
  then have "length ts = card (set ts)"
    by (simp add: distinct_card)
  with assms(2) have "length ts \<noteq> 1" by simp
  then show ?thesis
    by (simp add: generate_modality_overload_def stub_type_def sort_distinct [OF d])
qed

theorem union_sorted_by_type_witness:
  "map_of (group_by_modality (collect_suffix_info
      \<lparr>items = [(''Text'', \<lparr>BaseIO = Some BaseText, base_suffixes = [''txt''],
                           Custom = [(''json'', Some JsonText), (''yaml'', Some JsonText)]\<rparr>)],
       collision_suffix = {}\<rparr>)) ''Text'' = Some [''dict[str, Any]'', ''str'']
   \<and> stub_type [''dict[str, Any]'', ''str''] = ''Union[dict[str, Any], str]''
   \<and> generate_modality_overload ''Text'' [''dict[str, Any]'', ''str''] ! 8
     = ''    ) -> Union[dict[str, Any], str]: ...''"
proof -
  let ?si = "collect_suffix_info
      \<lparr>items = [(''Text'', \<lparr>BaseIO = Some BaseText, base_suffixes = [''txt''],
                           Custom = [(''json'', Some JsonText), (''yaml'', Some JsonText)]\<rparr>)],
       collision_suffix = {}\<rparr>"
  have 1: "map_of (group_by_modality ?si) ''Text'' = Some [''dict[str, Any]'', ''str'']"
    by (simp add: table_eval string_eval group_eval Let_def BaseText_def JsonText_def)
  have 2: "2 \<le> card (set [''dict[str, Any]'', ''str''])"
    by simp
  have 3: "sorted_list_of_set (set [''dict[str, Any]'', ''str'']) = [''dict[str, Any]'', ''str'']"
    by (simp add: sorted_list_of_set_sort_remdups)
  from union_sorted_by_type [OF 1 2] 1 3 show ?thesis
    by (simp add: stub_name_def dict_get_def TYPE_STUB_NAMES_def)
qed

text \<open>
  C1 as stated fails: the members are not in the order of the substituted names. A modality
  with the types \<^verbatim>\<open>torchvision.io.VideoReader\<close> and \<^verbatim>\<open>str\<close> gets
  \<^verbatim>\<open>Union[str, VideoReader]\<close>, while sorting the substituted names would give
  \<^verbatim>\<open>Union[VideoReader, str]\<close>.
\<close>

theorem union_order_counterexample:
  "map_of (group_by_modality (collect_suffix_info
      \<lparr>items = [(''Video'', \<lparr>BaseIO = Some BaseVideo, base_suffixes = [''mp4''],
                            Custom = [(''srt'', Some BaseText)]\<rparr>)],
       collision_suffix = {}\<rparr>)) ''Video'' = Some [''str'', ''torchvision.io.VideoReader'']
   \<and> generate_modality_overload ''Video'' [''str'', ''torchvision.io.VideoReader''] ! 8
     = ''    ) -> Union[str, VideoReader]: ...''
   \<and> ''Union['' @ join '', '' (sort (map stub_name [''str'', ''torchvision.io.VideoReader''])) @ '']''
     = ''Union[VideoReader, str]''"
  by (simp add: table_eval string_eval group_eval emit_eval Let_def BaseText_def BaseVideo_def)

text \<open>
  C9: the import lines of the generated text are exactly the import statements that
  \<^verbatim>\<open>TYPE_IMPORTS\<close> holds for the return types occurring in some modality's group, each once
  and in ascending order; they stand between the fixed header and the class. A return type
  without an entry in \<^verbatim>\<open>TYPE_IMPORTS\<close> contributes nothing.
\<close>

theorem import_lines_minimal:
  "generate_stub_content suffix_info
    = join [CHR 0x0A]
        (header_lines
         @ sorted_list_of_set
             (\<Union>ts\<in>snd ` set (group_by_modality suffix_info).
                \<Union>t\<in>set ts. set_option (map_of TYPE_IMPORTS t))
         @ class_lines
         @ overload_lines (group_by_modality suffix_info)
         @ fallback_lines)"
  by (simp only: generate_stub_content_def stub_lines_def import_lines_sorted_set)

text \<open>
  C2 (as amended): an override with a handler takes precedence over the base handler. Let
  \<open>s\<close> be a base suffix of a modality, and let an override of the same modality have a key
  that normalises to the same suffix and a handler that is not \<^verbatim>\<open>None\<close>. Then the entry
  which that modality's record leaves for the normalised suffix carries the handler of the
  last such override, never the base handler, and it is the entry of the final table when no
  record processed later stores that suffix.
\<close>

theorem override_precedence:
  assumes "items reg = pre @ (m, r) # post"
    and "s \<in> set (base_suffixes r)"
    and "Custom r = cu1 @ (s', Some h) # cu2"
    and "suffix_lower s' = suffix_lower s"
    and "\<forall>c\<in>set cu2. suffix_lower (fst c) = suffix_lower s \<longrightarrow> snd c = None"
    and "\<forall>x\<in>set post. suffix_lower s \<notin> fst ` set (process_modality (collision_suffix reg) x [])"
  shows "map_of (process_modality (collision_suffix reg) (m, r) t) (suffix_lower s)
      = Some \<lparr>handler = h, return_type = get_handler_return_type h, modality = m,
              is_collision = (suffix_lower s \<in> collision_suffix reg)\<rparr>
    \<and> map_of (collect_suffix_info reg) (suffix_lower s)
      = Some \<lparr>handler = h, return_type = get_handler_return_type h, modality = m,
              is_collision = (suffix_lower s \<in> collision_suffix reg)\<rparr>"
proof -
  let ?cs = "collision_suffix reg"
  let ?e = "\<lparr>handler = h, return_type = get_handler_return_type h, modality = m,
              is_collision = (suffix_lower s \<in> ?cs)\<rparr>"
  have rec: "map_of (process_modality ?cs (m, r) t') (suffix_lower s) = Some ?e" for t'
    using assms(3,4,5) by (rule process_modality_override)
  have "map_of (process_modality ?cs (m, r) []) (suffix_lower s) \<noteq> None"
    by (simp add: rec)
  then have "suffix_lower s \<in> fst ` set (process_modality ?cs (m, r) [])"
    by (simp only: map_of_eq_None_iff not_not)
  with assms(1,6)
  have "map_of (collect_suffix_info reg) (suffix_lower s)
      = map_of (process_modality ?cs (m, r) []) (suffix_lower s)"
    by (rule last_writer_wins)
  then have "map_of (collect_suffix_info reg) (suffix_lower s) = Some ?e"
    by (simp add: rec)
  with rec [of t] show ?thesis by (rule conjI)
qed

theorem override_precedence_witness:
  "map_of (collect_suffix_info
      \<lparr>items = [(''Text'', \<lparr>BaseIO = Some BaseText, base_suffixes = [''json'', ''txt''],
                           Custom = [(''.JSON'', Some JsonText)]\<rparr>)],
       collision_suffix = {}\<rparr>) ''json''
    = Some \<lparr>handler = JsonText, return_type = ''dict[str, Any]'', modality = ''Text'',
            is_collision = False\<rparr>"
proof -
  let ?r = "\<lparr>BaseIO = Some BaseText, base_suffixes = [''json'', ''txt''],
            Custom = [(''.JSON'', Some JsonText)]\<rparr>"
  let ?reg = "\<lparr>items = [(''Text'', ?r)], collision_suffix = {}\<rparr>"
  have 1: "items ?reg = [] @ (''Text'', ?r) # []" by simp
  have 2: "''json'' \<in> set (base_suffixes ?r)" by simp
  have 3: "Custom ?r = [] @ (''.JSON'', Some JsonText) # []" by simp
  have 4: "suffix_lower ''.JSON'' = suffix_lower ''json''" by (simp add: string_eval)
  have 5: "\<forall>c\<in>set []. suffix_lower (fst c) = suffix_lower ''json'' \<longrightarrow> snd c = None"
    by simp
  have 6: "\<forall>x\<in>set []. suffix_lower ''json''
      \<notin> fst ` set (process_modality (collision_suffix ?reg) x [])"
    by simp
  have 7: "suffix_lower ''json'' = ''json''" by (simp add: string_eval)
  have 8: "get_handler_return_type JsonText = ''dict[str, Any]''"
    by (simp add: get_handler_return_type_def dict_get_def DEFAULT_RETURN_TYPES_def JsonText_def)
  from override_precedence [OF 1 2 3 4 5 6, of "[]"] show ?thesis
    unfolding 7 8 by simp
qed

text \<open>
  C2 as stated fails on three registries. An override whose handler is \<^verbatim>\<open>None\<close> is
  skipped, so no handler is recorded for \<^verbatim>\<open>png\<close>; when its key is written \<^verbatim>\<open>.png\<close> the base
  handler is recorded; and a record processed later replaces the override's entry for
  \<^verbatim>\<open>dat\<close> by its own base handler.
\<close>

theorem override_precedence_counterexample:
  "map_of (collect_suffix_info
      \<lparr>items = [(''Image'', \<lparr>BaseIO = Some BaseImage, base_suffixes = [''png''],
                            Custom = [(''png'', None)]\<rparr>)],
       collision_suffix = {}\<rparr>) ''png'' = None
   \<and> map_of (collect_suffix_info
      \<lparr>items = [(''Image'', \<lparr>BaseIO = Some BaseImage, base_suffixes = [''.png''],
                            Custom = [(''.png'', None)]\<rparr>)],
       collision_suffix = {}\<rparr>) ''png''
     = Some \<lparr>handler = BaseImage, return_type = ''PIL.Image.Image'', modality = ''Image'',
             is_collision = False\<rparr>
   \<and> map_of (collect_suffix_info
      \<lparr>items = [(''Image'', \<lparr>BaseIO = Some BaseImage, base_suffixes = [''dat''],
                            Custom = [(''dat'', Some JsonText)]\<rparr>),
                (''Video'', \<lparr>BaseIO = Some BaseVideo, base_suffixes = [''dat''],
                            Custom = []\<rparr>)],
       collision_suffix = {}\<rparr>) ''dat''
     = Some \<lparr>handler = BaseVideo, return_type = ''torchvision.io.VideoReader'',
             modality = ''Video'', is_collision = False\<rparr>"
  by (simp add: table_eval string_eval Let_def BaseImage_def BaseVideo_def JsonText_def)

text \<open>
  C10 (as amended): an override whose handler is \<^verbatim>\<open>None\<close> is skipped without error and
  also keeps the base handler from being stored. Let a record have a base handler and a base
  suffix \<open>s\<close>, let its overrides contain the normalised \<open>s\<close> as a key with the handler
  \<^verbatim>\<open>None\<close>, and let every override whose key normalises to that suffix have the handler
  \<^verbatim>\<open>None\<close>. Then processing the record leaves the table's entry for the suffix as it was,
  and the final table has no entry for it when no other record stores it.
\<close>

theorem null_override_suppresses_base:
  assumes "items reg = pre @ (m, r) # post"
    and "BaseIO r = Some b"
    and "s \<in> set (base_suffixes r)"
    and "(suffix_lower s, None) \<in> set (Custom r)"
    and "\<forall>c\<in>set (Custom r). suffix_lower (fst c) = suffix_lower s \<longrightarrow> snd c = None"
    and "\<forall>x\<in>set pre \<union> set post.
      suffix_lower s \<notin> fst ` set (process_modality (collision_suffix reg) x [])"
  shows "map_of (process_modality (collision_suffix reg) (m, r) t) (suffix_lower s)
      = map_of t (suffix_lower s)
    \<and> suffix_lower s \<notin> fst ` set (collect_suffix_info reg)"
proof -
  let ?cs = "collision_suffix reg"
  have key: "suffix_lower s \<in> fst ` set (Custom r)"
    using assms(4) by (rule image_eqI [rotated]) simp
  have rec: "map_of (process_modality ?cs (m, r) t') (suffix_lower s) = map_of t' (suffix_lower s)"
    for t'
    using key assms(5) by (rule process_modality_null_override)
  have "map_of (process_modality ?cs (m, r) []) (suffix_lower s) = None"
    by (simp add: rec)
  then have own: "suffix_lower s \<notin> fst ` set (process_modality ?cs (m, r) [])"
    by (rule map_of_eq_None_iff [THEN iffD1])
  have "suffix_lower s \<notin> fst ` set (process_modality ?cs x [])" if "x \<in> set (items reg)" for x
  proof (cases "x = (m, r)")
    case True
    with own show ?thesis by simp
  next
    case False
    with that assms(1) have "x \<in> set pre \<union> set post" by auto
    with assms(6) show ?thesis by (rule bspec)
  qed
  then have "suffix_lower s \<notin> fst ` set (collect_suffix_info reg)"
    unfolding keys_collect_suffix_info by blast
  with rec [of t] show ?thesis by (rule conjI)
qed

theorem null_override_suppresses_base_witness:
  "''dat'' \<notin> fst ` set (collect_suffix_info
      \<lparr>items = [(''Image'', \<lparr>BaseIO = Some BaseImage, base_suffixes = [''png'', ''.DAT''],
                            Custom = [(''dat'', None)]\<rparr>)],
       collision_suffix = {}\<rparr>)"
proof -
  let ?r = "\<lparr>BaseIO = Some BaseImage, base_suffixes = [''png'', ''.DAT''],
            Custom = [(''dat'', None)]\<rparr>"
  let ?reg = "\<lparr>items = [(''Image'', ?r)], collision_suffix = {}\<rparr>"
  have 0: "suffix_lower ''.DAT'' = ''dat''" by (simp add: string_eval)
  have 1: "items ?reg = [] @ (''Image'', ?r) # []" by simp
  have 2: "BaseIO ?r = Some BaseImage" by simp
  have 3: "''.DAT'' \<in> set (base_suffixes ?r)" by simp
  have 4: "(suffix_lower ''.DAT'', None) \<in> set (Custom ?r)" by (simp add: 0)
  have 5: "\<forall>c\<in>set (Custom ?r). suffix_lower (fst c) = suffix_lower ''.DAT'' \<longrightarrow> snd c = None"
    by simp
  have 6: "\<forall>x\<in>set [] \<union> set []. suffix_lower ''.DAT''
      \<notin> fst ` set (process_modality (collision_suffix ?reg) x [])"
    by simp
  from null_override_suppresses_base [OF 1 2 3 4 5 6, of "[]"] show ?thesis
    unfolding 0 by simp
qed

text \<open>
  C10 as stated fails on two registries: another modality's record stores the suffix, or
  another override of the same record, whose key normalises to the same suffix, has a
  handler. In both the final table has an entry for \<^verbatim>\<open>dat\<close>.
\<close>

theorem null_override_suppresses_base_counterexample:
  "map_of (collect_suffix_info
      \<lparr>items = [(''Image'', \<lparr>BaseIO = Some BaseImage, base_suffixes = [''dat''],
                            Custom = [(''dat'', None)]\<rparr>),
                (''Video'', \<lparr>BaseIO = Some BaseVideo, base_suffixes = [''dat''],
                            Custom = []\<rparr>)],
       collision_suffix = {}\<rparr>) ''dat''
     = Some \<lparr>handler = BaseVideo, return_type = ''torchvision.io.VideoReader'',
             modality = ''Video'', is_collision = False\<rparr>
   \<and> map_of (collect_suffix_info
      \<lparr>items = [(''Image'', \<lparr>BaseIO = Some BaseImage, base_suffixes = [''dat''],
                            Custom = [(''dat'', None), (''.DAT'', Some JsonText)]\<rparr>)],
       collision_suffix = {}\<rparr>) ''dat''
     = Some \<lparr>handler = JsonText, return_type = ''dict[str, Any]'', modality = ''Image'',
             is_collision = False\<rparr>"
  by (simp add: table_eval string_eval Let_def BaseImage_def BaseVideo_def JsonText_def)

text \<open>
  C5: generation is deterministic for a fixed registry. The code does not achieve this for
  every registry: line 76 turns the base suffixes into a \<^verbatim>\<open>set\<close> and line 81 iterates it,
  and the order of that iteration decides the order of the keys of the table, hence the order
  of the groups and of the overloads of the modalities outside \<^verbatim>\<open>modality_order\<close>. For the
  registry below, whose modalities \<^verbatim>\<open>Audio\<close> and \<^verbatim>\<open>Depth\<close> share the suffix \<^verbatim>\<open>dat\<close>, the two
  orders in which the set of \<^verbatim>\<open>dat\<close> and \<^verbatim>\<open>wav\<close> can be iterated give two different texts.
\<close>

theorem generation_depends_on_set_order:
  "generate_stub_content (collect_suffix_info
      \<lparr>items = [(''Audio'', \<lparr>BaseIO = Some BaseText, base_suffixes = [''dat'', ''wav''],
                            Custom = []\<rparr>),
                (''Depth'', \<lparr>BaseIO = Some BaseImage, base_suffixes = [''dat''],
                            Custom = []\<rparr>)],
       collision_suffix = {''dat''}\<rparr>)
   \<noteq> generate_stub_content (collect_suffix_info
      \<lparr>items = [(''Audio'', \<lparr>BaseIO = Some BaseText, base_suffixes = [''wav'', ''dat''],
                            Custom = []\<rparr>),
                (''Depth'', \<lparr>BaseIO = Some BaseImage, base_suffixes = [''dat''],
                            Custom = []\<rparr>)],
       collision_suffix = {''dat''}\<rparr>)"
proof -
  let ?g1 = "[(''Depth'', [''PIL.Image.Image'']), (''Audio'', [''str''])]"
  let ?g2 = "[(''Audio'', [''str'']), (''Depth'', [''PIL.Image.Image''])]"
  let ?nl = "[CHR 0x0A]"
  define D where "D = generate_modality_overload ''Depth'' [''PIL.Image.Image'']"
  define A where "A = generate_modality_overload ''Audio'' [''str'']"
  define P where "P = header_lines @ [''from PIL.Image import Image as PILImage''] @ class_lines"
  have P: "P \<noteq> []"
    by (simp add: P_def header_lines_nonempty)
  have i1: "import_lines ?g1 = [''from PIL.Image import Image as PILImage'']"
    by (simp add: import_lines_def imports_needed_def all_return_types_def TYPE_IMPORTS_def)
  have i2: "import_lines ?g2 = [''from PIL.Image import Image as PILImage'']"
    by (simp add: import_lines_def imports_needed_def all_return_types_def TYPE_IMPORTS_def)
  have o1: "overload_lines ?g1 = D @ A"
    by (simp add: overload_lines_def modality_order_def D_def A_def)
  have o2: "overload_lines ?g2 = A @ D"
    by (simp add: overload_lines_def modality_order_def D_def A_def)
  have s1: "stub_lines ?g1 = P @ (D @ (A @ fallback_lines))"
    by (simp add: stub_lines_def i1 o1 P_def)
  have s2: "stub_lines ?g2 = P @ (A @ (D @ fallback_lines))"
    by (simp add: stub_lines_def i2 o2 P_def)
  have t1: "join ?nl (stub_lines ?g1)
      = join ?nl P @ ?nl @ ''    # modality=\"'' @ ''Depth'' @ ''\"'' @ ?nl
        @ join ?nl (tl D @ (A @ fallback_lines))"
    unfolding s1 D_def
    by (subst join_append) (simp_all add: P fallback_lines_nonempty join_overloads_first)
  have t2: "join ?nl (stub_lines ?g2)
      = join ?nl P @ ?nl @ ''    # modality=\"'' @ ''Audio'' @ ''\"'' @ ?nl
        @ join ?nl (tl A @ (D @ fallback_lines))"
    unfolding s2 A_def
    by (subst join_append) (simp_all add: P fallback_lines_nonempty join_overloads_first)
  have "join ?nl (stub_lines ?g1) \<noteq> join ?nl (stub_lines ?g2)"
    unfolding t1 t2 by simp
  then show ?thesis
    unfolding generate_stub_content_def groups_1 groups_2 .
qed

end
